theory Spec2Isabelle
  imports Main "HOL-Library.FSet"
begin

section \<open>The workshop download service of \<^verbatim>\<open>app.py\<close>\<close>

text \<open>  The program is a Flask application. The route \<^verbatim>\<open>/add\<close> admits a workshop id for
  the calling client and starts one thread per admitted id; the thread body
  \<^verbatim>\<open>download_workshop_item\<close> runs SteamCMD, zips the result, uploads the archive and
  cleans up, all inside \<^verbatim>\<open>with download_semaphore\<close>. The routes \<^verbatim>\<open>/\<close>,
  \<^verbatim>\<open>/downloads\<close> and \<^verbatim>\<open>/workshop/<id>\<close> only read and are left out.

  The model is an interleaving semantics. The shared state is a record; every access of
  a thread to shared state (a dictionary, the file system, the semaphore, the bucket) is
  one atomic step, and the program counter of a thread is named after the source line it
  is about to execute. The critical section of \<^verbatim>\<open>add_item\<close> runs under
  \<^verbatim>\<open>user_lock\<close> and reads \<^verbatim>\<open>download_status\<close> once, so it is one atomic step.

  What the program does not decide is an input of the model: the exit status of SteamCMD,
  what SteamCMD leaves in its content directory, and whether the upload to the storage
  bucket succeeds or raises. The file system is deterministic: an operation raises exactly
  when its path has the wrong kind (missing, a file, a directory, already there).\<close>

subsection \<open>Data\<close>

text \<open>
  Paths. \<^verbatim>\<open>WorkshopPath n\<close> is \<^verbatim>\<open>os.path.join(WORKSHOP_DIR, n)\<close>; \<^verbatim>\<open>ContentPath n\<close> is
  \<^verbatim>\<open>os.path.join(STEAMCMD_DIR, "steamapps", "workshop", "content", APPID, n)\<close>.
  Identifiers are taken to be plain file names: two names are the same path only when
  they are the same string (so the folder of item \<^verbatim>\<open>x.zip\<close> is the archive of item
  \<^verbatim>\<open>x\<close>, as on disk).

  A directory is the list of its files as \<^verbatim>\<open>os.walk\<close> yields them (relative path, data);
  a regular file holds the members written to it.
\<close>

type_synonym content = "(string \<times> string) list"

datatype node = Dir content | File content

datatype path = WorkshopPath string | ContentPath string

text \<open>The exceptions that leave \<^verbatim>\<open>download_workshop_item\<close> uncaught. (The one exception
  the body catches, \<^verbatim>\<open>subprocess.CalledProcessError\<close>, is a branch of the body.)\<close>

datatype exn =
  FileExistsError | FileNotFoundError | NotADirectoryError | IsADirectoryError
  | StorageException

text \<open>The program counter of a download thread: \<^verbatim>\<open>Lnn\<close> stands before line nn of
  \<^verbatim>\<open>app.py\<close>. \<^verbatim>\<open>L57\<close> waits for the semaphore; \<^verbatim>\<open>L77 p\<close> holds the local variable
  \<^verbatim>\<open>zip_path = p\<close>; \<^verbatim>\<open>Leaving\<close> is the normal exit of the \<^verbatim>\<open>with\<close> block and
  \<^verbatim>\<open>Raising e\<close> its exit with the exception e in flight (both release the semaphore);
  \<^verbatim>\<open>Returned\<close> and \<^verbatim>\<open>Died e\<close> are the two ends of a thread.\<close>

datatype pc =
  L57 | L58 | L61 | L62 | L65 | L73 | L74 | L75 | L77 path | L78 | L80 | L81
  | L83 | L85 | L87 | Leaving | Raising exn | Returned | Died exn

record thread =
  t_wid :: string
  t_user_ip :: string
  t_pc :: pc

text \<open>The shared state: the dictionaries \<^verbatim>\<open>download_status\<close> and \<^verbatim>\<open>user_queues\<close>
  (a Python set is finite, hence \<open>fset\<close>), the counter of \<^verbatim>\<open>download_semaphore\<close>, the
  disk, the storage bucket \<^verbatim>\<open>workshop\<close> (file name to content), and the threads started
  so far, in the order they were started. A thread that has ended stays in the list.\<close>

record state =
  download_status :: "string \<rightharpoonup> string"
  user_queues :: "string \<rightharpoonup> string fset"
  permits :: nat
  fs :: "path \<rightharpoonup> node"
  bucket :: "string \<rightharpoonup> content"
  threads :: "thread list"

text \<open>What the environment decides for one step of a thread.\<close>

record env =
  tool_exit_ok :: bool
  tool_output :: "content option"
  upload_ok :: bool

text \<open>The four answers of \<^verbatim>\<open>/add\<close>: HTTP 400 (no id in the form), the message
  "... is already queued or downloaded", HTTP 429 (queue full), and the message
  "... queued for download".\<close>

datatype response = NoWorkshopId | AlreadyQueuedOrDone | ClientQueueFull | Accepted

text \<open>Lines 48 and 50.\<close>

definition MAX_CONCURRENT_DOWNLOADS :: nat where
  "MAX_CONCURRENT_DOWNLOADS = 2"

definition MAX_USER_QUEUE :: nat where
  "MAX_USER_QUEUE = 3"

subsection \<open>The helpers of the thread body\<close>

text \<open>\<^verbatim>\<open>download_status[wid] = st\<close>.\<close>

definition set_status :: "string \<Rightarrow> string \<Rightarrow> state \<Rightarrow> state" where
  "set_status wid st s = s\<lparr>download_status := (download_status s)(wid \<mapsto> st)\<rparr>"

text \<open>\<^verbatim>\<open>subprocess.run([...], check=True)\<close>: SteamCMD may leave a content directory for
  the item; the exit status is read by the caller.\<close>

definition run_steamcmd :: "env \<Rightarrow> string \<Rightarrow> state \<Rightarrow> state" where
  "run_steamcmd e wid s =
     (case tool_output e of
        None \<Rightarrow> s
      | Some entries \<Rightarrow> s\<lparr>fs := (fs s)(ContentPath wid \<mapsto> Dir entries)\<rparr>)"

text \<open>\<^verbatim>\<open>shutil.copytree(src, dst)\<close> raises when the source is no directory or the
  destination exists.\<close>

definition copytree :: "path \<Rightarrow> path \<Rightarrow> state \<Rightarrow> exn option \<times> state" where
  "copytree src dst s =
     (case fs s src of
        None \<Rightarrow> (Some FileNotFoundError, s)
      | Some (File d) \<Rightarrow> (Some NotADirectoryError, s)
      | Some (Dir entries) \<Rightarrow>
          (if fs s dst = None then (None, s\<lparr>fs := (fs s)(dst \<mapsto> Dir entries)\<rparr>)
           else (Some FileExistsError, s)))"

text \<open>\<^verbatim>\<open>shutil.rmtree(dst)\<close> raises when the path is missing or is no directory.\<close>

definition rmtree :: "path \<Rightarrow> state \<Rightarrow> exn option \<times> state" where
  "rmtree dst s =
     (case fs s dst of
        None \<Rightarrow> (Some FileNotFoundError, s)
      | Some (File d) \<Rightarrow> (Some NotADirectoryError, s)
      | Some (Dir entries) \<Rightarrow> (None, s\<lparr>fs := (fs s)(dst := None)\<rparr>))"

text \<open>\<^verbatim>\<open>zip_workshop_item\<close> (lines 92 to 107), on the file system alone. An existing
  path \<^verbatim>\<open>wid.zip\<close> is returned as it is; else a directory is archived, every file of the
  walk written under its relative name; else the answer is \<^verbatim>\<open>None\<close>.\<close>

definition zip_workshop_item :: "string \<Rightarrow> (path \<rightharpoonup> node) \<Rightarrow> path option \<times> (path \<rightharpoonup> node)" where
  "zip_workshop_item wid f =
     (let folder_path = WorkshopPath wid;
          zip_path = WorkshopPath (wid @ ''.zip'')
      in if f zip_path = None then
           (case f folder_path of
              Some (Dir entries) \<Rightarrow> (Some zip_path, f(zip_path \<mapsto> File entries))
            | Some (File d) \<Rightarrow> (None, f)
            | None \<Rightarrow> (None, f))
         else (Some zip_path, f))"

text \<open>\<^verbatim>\<open>upload_to_supabase\<close> (lines 110 to 116): read the archive, upload it under
  \<^verbatim>\<open>wid.zip\<close> with upsert, remove the local archive. Opening a missing path or a
  directory raises; a failed upload raises; nothing is caught.\<close>

definition upload_to_supabase :: "env \<Rightarrow> path \<Rightarrow> string \<Rightarrow> state \<Rightarrow> exn option \<times> state" where
  "upload_to_supabase e zip_path wid s =
     (let file_name = wid @ ''.zip''
      in case fs s zip_path of
           None \<Rightarrow> (Some FileNotFoundError, s)
         | Some (Dir entries) \<Rightarrow> (Some IsADirectoryError, s)
         | Some (File d) \<Rightarrow>
             (if upload_ok e
              then (None, s\<lparr>bucket := (bucket s)(file_name \<mapsto> d),
                             fs := (fs s)(zip_path := None)\<rparr>)
              else (Some StorageException, s)))"

text \<open>Lines 87 to 89, under \<^verbatim>\<open>user_lock\<close>.\<close>

definition discard_queued :: "string \<Rightarrow> string \<Rightarrow> state \<Rightarrow> state" where
  "discard_queued user_ip wid s =
     (case user_queues s user_ip of
        None \<Rightarrow> s
      | Some queue \<Rightarrow> s\<lparr>user_queues := (user_queues s)(user_ip \<mapsto> queue |-| {|wid|})\<rparr>)"

subsection \<open>Admission: the route \<^verbatim>\<open>/add\<close>\<close>

text \<open>\<^verbatim>\<open>add_item\<close> (lines 128 to 144). The form field is absent (\<^verbatim>\<open>None\<close>) or a string;
  \<^verbatim>\<open>not wid\<close> holds for both the absent and the empty one. \<^verbatim>\<open>setdefault\<close> stores an
  empty queue for a client seen for the first time. An accepted request starts a thread,
  which stands before the \<^verbatim>\<open>with download_semaphore\<close> of line 57.\<close>

definition add_item :: "string option \<Rightarrow> string \<Rightarrow> state \<Rightarrow> response \<times> state" where
  "add_item form_wid user_ip s =
     (case form_wid of
        None \<Rightarrow> (NoWorkshopId, s)
      | Some wid \<Rightarrow>
          if wid = [] then (NoWorkshopId, s)
          else
            let queue = (case user_queues s user_ip of None \<Rightarrow> {||} | Some q \<Rightarrow> q);
                s1 = s\<lparr>user_queues := (user_queues s)(user_ip \<mapsto> queue)\<rparr>
            in if wid |\<in>| queue \<or> wid \<in> dom (download_status s1) then (AlreadyQueuedOrDone, s1)
               else if MAX_USER_QUEUE \<le> fcard queue then (ClientQueueFull, s1)
               else (Accepted,
                     s1\<lparr>user_queues := (user_queues s1)(user_ip \<mapsto> finsert wid queue),
                        threads := threads s1 @ [\<lparr>t_wid = wid, t_user_ip = user_ip, t_pc = L57\<rparr>]\<rparr>))"

text \<open>The route \<^verbatim>\<open>/status/<wid>\<close> (lines 146 to 148).\<close>

definition status :: "string \<Rightarrow> state \<Rightarrow> string" where
  "status wid s = (case download_status s wid of None \<Rightarrow> ''Not started'' | Some st \<Rightarrow> st)"

subsection \<open>The thread body, step by step\<close>

text \<open>One step of a thread standing at \<^verbatim>\<open>t_pc t\<close> (lines 56 to 89). \<^verbatim>\<open>None\<close>: the thread
  cannot move (it waits for a permit, or it has ended).\<close>

definition body_step :: "env \<Rightarrow> thread \<Rightarrow> state \<Rightarrow> (thread \<times> state) option" where
  "body_step e t s =
     (let wid = t_wid t;
          dst = WorkshopPath wid;
          src = ContentPath wid
      in case t_pc t of
           L57 \<Rightarrow> if permits s = 0 then None
                  else Some (t\<lparr>t_pc := L58\<rparr>, s\<lparr>permits := permits s - 1\<rparr>)
         | L58 \<Rightarrow> Some (t\<lparr>t_pc := L61\<rparr>, set_status wid ''Downloading...'' s)
         | L61 \<Rightarrow> Some (t\<lparr>t_pc := (if fs s dst = None then L65 else L62)\<rparr>, s)
         | L62 \<Rightarrow> Some (t\<lparr>t_pc := L87\<rparr>, set_status wid ''Already downloaded locally'' s)
         | L65 \<Rightarrow> Some (t\<lparr>t_pc := (if tool_exit_ok e then L73 else L85)\<rparr>, run_steamcmd e wid s)
         | L73 \<Rightarrow> Some (t\<lparr>t_pc := (if fs s src = None then L83 else L74)\<rparr>, s)
         | L74 \<Rightarrow> (case copytree src dst s of
                     (None, s') \<Rightarrow> Some (t\<lparr>t_pc := L75\<rparr>, s')
                   | (Some x, s') \<Rightarrow> Some (t\<lparr>t_pc := Raising x\<rparr>, s'))
         | L75 \<Rightarrow> (case zip_workshop_item wid (fs s) of
                     (Some zip_path, f') \<Rightarrow> Some (t\<lparr>t_pc := L77 zip_path\<rparr>, s\<lparr>fs := f'\<rparr>)
                   | (None, f') \<Rightarrow> Some (t\<lparr>t_pc := L80\<rparr>, s\<lparr>fs := f'\<rparr>))
         | L77 zip_path \<Rightarrow> (case upload_to_supabase e zip_path wid s of
                     (None, s') \<Rightarrow> Some (t\<lparr>t_pc := L78\<rparr>, s')
                   | (Some x, s') \<Rightarrow> Some (t\<lparr>t_pc := Raising x\<rparr>, s'))
         | L78 \<Rightarrow> Some (t\<lparr>t_pc := L81\<rparr>, set_status wid ''Download complete'' s)
         | L80 \<Rightarrow> Some (t\<lparr>t_pc := L81\<rparr>, set_status wid ''Failed to zip files'' s)
         | L81 \<Rightarrow> (case rmtree dst s of
                     (None, s') \<Rightarrow> Some (t\<lparr>t_pc := L87\<rparr>, s')
                   | (Some x, s') \<Rightarrow> Some (t\<lparr>t_pc := Raising x\<rparr>, s'))
         | L83 \<Rightarrow> Some (t\<lparr>t_pc := L87\<rparr>, set_status wid ''Failed to find downloaded files'' s)
         | L85 \<Rightarrow> Some (t\<lparr>t_pc := L87\<rparr>, set_status wid ''SteamCMD failed'' s)
         | L87 \<Rightarrow> Some (t\<lparr>t_pc := Leaving\<rparr>, discard_queued (t_user_ip t) wid s)
         | Leaving \<Rightarrow> Some (t\<lparr>t_pc := Returned\<rparr>, s\<lparr>permits := permits s + 1\<rparr>)
         | Raising x \<Rightarrow> Some (t\<lparr>t_pc := Died x\<rparr>, s\<lparr>permits := permits s + 1\<rparr>)
         | Returned \<Rightarrow> None
         | Died x \<Rightarrow> None)"

text \<open>Thread number i of the system takes one step.\<close>

definition thread_step :: "env \<Rightarrow> nat \<Rightarrow> state \<Rightarrow> state option" where
  "thread_step e i s =
     (if i < length (threads s) then
        (case body_step e (threads s ! i) s of
           None \<Rightarrow> None
         | Some (t', s') \<Rightarrow> Some (s'\<lparr>threads := (threads s')[i := t']\<rparr>))
      else None)"

subsection \<open>The system\<close>

text \<open>At start both dictionaries are empty, the semaphore holds all its permits and no
  thread runs; the disk and the bucket hold whatever earlier runs left.\<close>

definition initial :: "state \<Rightarrow> bool" where
  "initial s \<longleftrightarrow>
     download_status s = Map.empty \<and> user_queues s = Map.empty
     \<and> permits s = MAX_CONCURRENT_DOWNLOADS \<and> threads s = []"

text \<open>The start state on an empty disk, with an empty bucket.\<close>

definition init_state :: state where
  "init_state =
     \<lparr>download_status = Map.empty, user_queues = Map.empty,
      permits = MAX_CONCURRENT_DOWNLOADS, fs = Map.empty, bucket = Map.empty,
      threads = []\<rparr>"

text \<open>The states the system can be in: any request may arrive and any thread may take a
  step at any time, with any outcome of SteamCMD and of the upload.\<close>

inductive reachable :: "state \<Rightarrow> bool" where
  start: "initial s \<Longrightarrow> reachable s"
| request: "reachable s \<Longrightarrow> reachable (snd (add_item form_wid user_ip s))"
| progress: "reachable s \<Longrightarrow> thread_step e i s = Some s' \<Longrightarrow> reachable s'"

text \<open>A schedule: requests and thread steps in the order they happen. A step of a
  thread that cannot move is skipped.\<close>

datatype event = Request "string option" string | Step env nat

fun exec :: "event list \<Rightarrow> state \<Rightarrow> state" where
  "exec [] s = s"
| "exec (Request form_wid user_ip # evs) s = exec evs (snd (add_item form_wid user_ip s))"
| "exec (Step e i # evs) s =
     exec evs (case thread_step e i s of None \<Rightarrow> s | Some s' \<Rightarrow> s')"

subsection \<open>The thread body, run without interruption\<close>

text \<open>\<^verbatim>\<open>download_workshop_item\<close> as one function, for a job that no other thread
  interleaves with. An exception skips the rest of the body; the \<^verbatim>\<open>with\<close> statement
  releases the semaphore on the way out. \<^verbatim>\<open>None\<close>: no permit is free and the call
  blocks.\<close>

definition on_ok :: "exn option \<times> state \<Rightarrow> (state \<Rightarrow> exn option \<times> state) \<Rightarrow> exn option \<times> state" where
  "on_ok r k = (case r of (None, s) \<Rightarrow> k s | (Some x, s) \<Rightarrow> (Some x, s))"

text \<open>Lines 75 to 81: zip, upload or give up, remove the local copy.\<close>

definition publish_and_clean :: "env \<Rightarrow> string \<Rightarrow> state \<Rightarrow> exn option \<times> state" where
  "publish_and_clean e wid s =
     (case zip_workshop_item wid (fs s) of
        (zip_path, f') \<Rightarrow>
          on_ok
            (case zip_path of
               Some p \<Rightarrow>
                 on_ok (upload_to_supabase e p wid (s\<lparr>fs := f'\<rparr>))
                   (\<lambda>s'. (None, set_status wid ''Download complete'' s'))
             | None \<Rightarrow> (None, set_status wid ''Failed to zip files'' (s\<lparr>fs := f'\<rparr>)))
            (rmtree (WorkshopPath wid)))"

text \<open>Lines 64 to 85, the \<^verbatim>\<open>else\<close> branch of line 63.\<close>

definition fetch_and_publish :: "env \<Rightarrow> string \<Rightarrow> state \<Rightarrow> exn option \<times> state" where
  "fetch_and_publish e wid s =
     (let dst = WorkshopPath wid;
          s1 = run_steamcmd e wid s
      in if tool_exit_ok e then
           (let src = ContentPath wid
            in if fs s1 src = None
               then (None, set_status wid ''Failed to find downloaded files'' s1)
               else on_ok (copytree src dst s1) (publish_and_clean e wid))
         else (None, set_status wid ''SteamCMD failed'' s1))"

text \<open>Lines 58 to 89, the block under \<^verbatim>\<open>with download_semaphore\<close>.\<close>

definition download_body :: "env \<Rightarrow> string \<Rightarrow> string \<Rightarrow> state \<Rightarrow> exn option \<times> state" where
  "download_body e wid user_ip s =
     (let s1 = set_status wid ''Downloading...'' s;
          dst = WorkshopPath wid
      in on_ok
           (if fs s1 dst = None then fetch_and_publish e wid s1
            else (None, set_status wid ''Already downloaded locally'' s1))
           (\<lambda>s2. (None, discard_queued user_ip wid s2)))"

text \<open>Lines 56 to 89. The semaphore is released on both ways out of the \<^verbatim>\<open>with\<close>
  block. The function leaves the list of threads alone; lemma \<open>solo_run\<close> below ties it
  to the steps of a thread.\<close>

definition download_workshop_item ::
    "env \<Rightarrow> string \<Rightarrow> string \<Rightarrow> state \<Rightarrow> (exn option \<times> state) option" where
  "download_workshop_item e wid user_ip s =
     (if permits s = 0 then None
      else case download_body e wid user_ip (s\<lparr>permits := permits s - 1\<rparr>) of
             (r, s') \<Rightarrow> Some (r, s'\<lparr>permits := permits s' + 1\<rparr>))"

subsection \<open>Predicates on states\<close>

text \<open>Every client's queue holds at most \<^verbatim>\<open>MAX_USER_QUEUE\<close> ids.\<close>

definition queues_bounded :: "state \<Rightarrow> bool" where
  "queues_bounded s \<longleftrightarrow> (\<forall>ip q. user_queues s ip = Some q \<longrightarrow> fcard q \<le> MAX_USER_QUEUE)"



text \<open>A thread that has not yet executed line 58.\<close>

definition before_first_write :: "thread \<Rightarrow> bool" where
  "before_first_write t \<longleftrightarrow> t_pc t = L57 \<or> t_pc t = L58"

text \<open>An id has a status exactly when some thread for it has executed line 58.\<close>

definition status_iff_started :: "state \<Rightarrow> bool" where
  "status_iff_started s \<longleftrightarrow>
     (\<forall>wid. download_status s wid \<noteq> None \<longleftrightarrow>
        (\<exists>j < length (threads s). t_wid (threads s ! j) = wid \<and> \<not> before_first_write (threads s ! j)))"

text \<open>A thread inside the \<^verbatim>\<open>with download_semaphore\<close> block.\<close>

definition holds_permit :: "thread \<Rightarrow> bool" where
  "holds_permit t \<longleftrightarrow>
     (case t_pc t of L57 \<Rightarrow> False | Returned \<Rightarrow> False | Died x \<Rightarrow> False | _ \<Rightarrow> True)"

text \<open>Every permit is either free or held by a thread inside the block.\<close>

definition permits_accounted :: "state \<Rightarrow> bool" where
  "permits_accounted s \<longleftrightarrow>
     permits s + length (filter holds_permit (threads s)) = MAX_CONCURRENT_DOWNLOADS"

text \<open>The ids whose status is "Downloading...".\<close>

definition downloading :: "state \<Rightarrow> string set" where
  "downloading s = {wid. download_status s wid = Some ''Downloading...''}"

text \<open>A thread that has executed line 58 and not yet written another status: it stands
  between lines 61 and 85, or an exception has ended it.\<close>

definition in_flight :: "thread \<Rightarrow> bool" where
  "in_flight t \<longleftrightarrow>
     (case t_pc t of
        L57 \<Rightarrow> False | L58 \<Rightarrow> False | L81 \<Rightarrow> False | L87 \<Rightarrow> False
      | Leaving \<Rightarrow> False | Returned \<Rightarrow> False | _ \<Rightarrow> True)"

text \<open>Every id whose status is "Downloading..." has such a thread.\<close>

definition downloading_has_thread :: "state \<Rightarrow> bool" where
  "downloading_has_thread s \<longleftrightarrow>
     (\<forall>wid. download_status s wid = Some ''Downloading...'' \<longrightarrow>
        (\<exists>j < length (threads s). t_wid (threads s ! j) = wid \<and> in_flight (threads s ! j)))"

text \<open>The place of a status in the life of a job: none, "Downloading...", final.\<close>

definition lifecycle_rank :: "string option \<Rightarrow> nat" where
  "lifecycle_rank st =
     (case st of None \<Rightarrow> 0 | Some x \<Rightarrow> if x = ''Downloading...'' then 1 else 2)"

text \<open>The id of a thread is in the queue of its client until the thread has executed
  lines 87 to 89.\<close>

definition queued_until_discarded :: "state \<Rightarrow> bool" where
  "queued_until_discarded s \<longleftrightarrow>
     (\<forall>j < length (threads s).
        t_pc (threads s ! j) \<noteq> Leaving \<and> t_pc (threads s ! j) \<noteq> Returned \<longrightarrow>
        (\<exists>q. user_queues s (t_user_ip (threads s ! j)) = Some q \<and> t_wid (threads s ! j) |\<in>| q))"

text \<open>No two threads have the same client and the same id.\<close>

definition one_job_per_client_and_id :: "state \<Rightarrow> bool" where
  "one_job_per_client_and_id s \<longleftrightarrow>
     (\<forall>j < length (threads s). \<forall>k < length (threads s).
        t_user_ip (threads s ! j) = t_user_ip (threads s ! k)
        \<and> t_wid (threads s ! j) = t_wid (threads s ! k) \<longrightarrow> j = k)"

subsection \<open>Example schedules\<close>

text \<open>Three outcomes of the environment: everything works; the upload raises; SteamCMD
  exits with a non-zero status.\<close>

definition all_ok :: env where
  "all_ok = \<lparr>tool_exit_ok = True, tool_output = Some [(''a.txt'', ''hi'')], upload_ok = True\<rparr>"

definition upload_fails :: env where
  "upload_fails = \<lparr>tool_exit_ok = True, tool_output = Some [(''a.txt'', ''hi'')], upload_ok = False\<rparr>"

definition tool_fails :: env where
  "tool_fails = \<lparr>tool_exit_ok = False, tool_output = None, upload_ok = True\<rparr>"

text \<open>Twelve steps of one thread: as many as the longest path through the body.\<close>

definition run_to_end :: "env \<Rightarrow> nat \<Rightarrow> event list" where
  "run_to_end e i =
     [Step e i, Step e i, Step e i, Step e i, Step e i, Step e i,
      Step e i, Step e i, Step e i, Step e i, Step e i, Step e i]"

text \<open>Client X asks for three items, one after the other.\<close>

definition scenario_A :: "event list" where
  "scenario_A =
     [Request (Some ''1'') ''X'', Request (Some ''2'') ''X'', Request (Some ''3'') ''X'']"


text \<open>... and the thread runs to its end, everything working.\<close>

definition one_job_done :: "event list" where
  "one_job_done = Request (Some ''42'') ''A'' # run_to_end all_ok 0"

text \<open>Clients A and B ask for item 42, B before A's thread has moved.\<close>

definition two_clients :: "event list" where
  "two_clients = [Request (Some ''42'') ''A'', Request (Some ''42'') ''B'']"

text \<open>Client A asks for item x; the upload of its thread raises.\<close>

definition failed_upload :: "event list" where
  "failed_upload = Request (Some ''x'') ''A'' # run_to_end upload_fails 0"

text \<open>Client A asks for item x; SteamCMD fails.\<close>

definition failed_tool :: "event list" where
  "failed_tool = Request (Some ''x'') ''A'' # run_to_end tool_fails 0"

text \<open>Client A asks for three items; the three threads run one after the other and the
  upload of each raises.\<close>

definition three_failed_uploads :: "event list" where
  "three_failed_uploads =
     [Request (Some ''1'') ''A'', Request (Some ''2'') ''A'', Request (Some ''3'') ''A'']
     @ run_to_end upload_fails 0 @ run_to_end upload_fails 1 @ run_to_end upload_fails 2"


subsection \<open>Bookkeeping for the comparison of the two models of the body\<close>

text \<open>How a thread ends: returned, or dead with the exception.\<close>

definition ended :: "exn option \<Rightarrow> pc" where
  "ended r = (case r of None \<Rightarrow> Returned | Some x \<Rightarrow> Died x)"

text \<open>Thread number i stands at p.\<close>

definition put :: "nat \<Rightarrow> string \<Rightarrow> string \<Rightarrow> pc \<Rightarrow> state \<Rightarrow> state" where
  "put i wid ip p s = s\<lparr>threads := (threads s)[i := \<lparr>t_wid = wid, t_user_ip = ip, t_pc = p\<rparr>]\<rparr>"

text \<open>What is left to do once lines 58 to 85 have produced their outcome: line 87 unless
  an exception is in flight, then the release of the permit.\<close>

definition finish :: "nat \<Rightarrow> string \<Rightarrow> string \<Rightarrow> exn option \<times> state \<Rightarrow> state" where
  "finish i wid ip inner =
     (case on_ok inner (\<lambda>s2. (None, discard_queued ip wid s2)) of
        (r, s') \<Rightarrow> put i wid ip (ended r) (s'\<lparr>permits := permits s' + 1\<rparr>))"

section \<open>Properties\<close>

subsection \<open>What one step changes\<close>

lemmas helper_defs = set_status_def run_steamcmd_def copytree_def rmtree_def
  upload_to_supabase_def discard_queued_def

lemma body_step_threads:
  "body_step e t s = Some (t', s') \<Longrightarrow> threads s' = threads s"
  by (cases "t_pc t")
    (auto simp: body_step_def helper_defs Let_def
          split: if_splits option.splits node.splits prod.splits)

lemma body_step_ids:
  "body_step e t s = Some (t', s') \<Longrightarrow> t_wid t' = t_wid t \<and> t_user_ip t' = t_user_ip t"
  by (cases "t_pc t")
    (auto simp: body_step_def helper_defs Let_def
          split: if_splits option.splits node.splits prod.splits)

lemma body_step_user_queues:
  "body_step e t s = Some (t', s') \<Longrightarrow>
   user_queues s' =
     (if t_pc t = L87 then user_queues (discard_queued (t_user_ip t) (t_wid t) s)
      else user_queues s)"
  by (cases "t_pc t")
    (auto simp: body_step_def helper_defs Let_def
          split: if_splits option.splits node.splits prod.splits)

lemma body_step_download_status:
  "body_step e t s = Some (t', s') \<Longrightarrow>
   download_status s' =
     (case t_pc t of
        L58 \<Rightarrow> (download_status s)(t_wid t \<mapsto> ''Downloading...'')
      | L62 \<Rightarrow> (download_status s)(t_wid t \<mapsto> ''Already downloaded locally'')
      | L78 \<Rightarrow> (download_status s)(t_wid t \<mapsto> ''Download complete'')
      | L80 \<Rightarrow> (download_status s)(t_wid t \<mapsto> ''Failed to zip files'')
      | L83 \<Rightarrow> (download_status s)(t_wid t \<mapsto> ''Failed to find downloaded files'')
      | L85 \<Rightarrow> (download_status s)(t_wid t \<mapsto> ''SteamCMD failed'')
      | _ \<Rightarrow> download_status s)"
  by (cases "t_pc t")
    (auto simp: body_step_def helper_defs Let_def
          split: if_splits option.splits node.splits prod.splits)

lemma body_step_pc:
  "body_step e t s = Some (t', s') \<Longrightarrow>
   before_first_write t' = (t_pc t = L57)"
  by (cases "t_pc t")
    (auto simp: body_step_def helper_defs Let_def before_first_write_def
          split: if_splits option.splits node.splits prod.splits)

lemma body_step_permits:
  "body_step e t s = Some (t', s') \<Longrightarrow>
   permits s' + (if holds_permit t' then 1 else 0) = permits s + (if holds_permit t then 1 else 0)"
  by (cases "t_pc t")
    (auto simp: body_step_def helper_defs Let_def holds_permit_def
          split: if_splits option.splits node.splits prod.splits)

lemma body_step_frame:
  "body_step e t (s\<lparr>threads := ts\<rparr>)
     = (case body_step e t s of None \<Rightarrow> None | Some (t', s') \<Rightarrow> Some (t', s'\<lparr>threads := ts\<rparr>))"
  by (cases "t_pc t")
    (auto simp: body_step_def helper_defs Let_def
          split: if_splits option.splits node.splits prod.splits)

lemma thread_stepD:
  assumes "thread_step e i s = Some s'"
  obtains t' s1 where "i < length (threads s)" "body_step e (threads s ! i) s = Some (t', s1)"
    "s' = s1\<lparr>threads := (threads s)[i := t']\<rparr>"
  using assms body_step_threads
  by (fastforce simp: thread_step_def split: if_splits option.splits prod.splits)

lemma add_item_download_status:
  "download_status (snd (add_item form_wid user_ip s)) = download_status s"
  by (auto simp: add_item_def Let_def split: option.splits)

lemma add_item_permits:
  "permits (snd (add_item form_wid user_ip s)) = permits s"
  by (auto simp: add_item_def Let_def split: option.splits)

lemma add_item_threads:
  "threads (snd (add_item form_wid user_ip s)) = threads s
   \<or> (\<exists>wid. form_wid = Some wid \<and> fst (add_item form_wid user_ip s) = Accepted \<and>
        threads (snd (add_item form_wid user_ip s))
          = threads s @ [\<lparr>t_wid = wid, t_user_ip = user_ip, t_pc = L57\<rparr>])"
  by (auto simp: add_item_def Let_def split: option.splits)

lemma add_item_rejected:
  assumes "wid \<noteq> []" "download_status s wid \<noteq> None"
  shows "fst (add_item (Some wid) ip s) = AlreadyQueuedOrDone
     \<and> threads (snd (add_item (Some wid) ip s)) = threads s
     \<and> download_status (snd (add_item (Some wid) ip s)) = download_status s
     \<and> permits (snd (add_item (Some wid) ip s)) = permits s
     \<and> fs (snd (add_item (Some wid) ip s)) = fs s
     \<and> bucket (snd (add_item (Some wid) ip s)) = bucket s"
  using assms by (auto simp: add_item_def Let_def dom_def split: option.splits)

lemma add_item_full:
  assumes "wid \<noteq> []" "user_queues s ip = Some q" "wid |\<notin>| q"
    "wid \<notin> dom (download_status s)" "MAX_USER_QUEUE \<le> fcard q"
  shows "add_item (Some wid) ip s = (ClientQueueFull, s)"
proof -
  have "(user_queues s)(ip \<mapsto> q) = user_queues s"
    using assms(2) by (rule map_upd_triv)
  then show ?thesis
    using assms by (simp add: add_item_def Let_def)
qed

lemma download_status_grows:
  assumes "body_step e t s = Some (t', s')" "download_status s wid \<noteq> None"
  shows "download_status s' wid \<noteq> None"
  using body_step_download_status [OF assms(1)] assms(2)
  by (cases "t_pc t") (auto split: if_splits)



lemma first_write_is_line_58:
  assumes "body_step e t s = Some (t', s')" "download_status s' wid \<noteq> download_status s wid"
  shows "wid = t_wid t \<and> t_pc t \<noteq> L57 \<and> \<not> before_first_write t'"
  using body_step_download_status [OF assms(1)] assms(2) body_step_pc [OF assms(1)]
  by (cases "t_pc t") (auto split: if_splits)

lemma reachable_exec: "reachable s \<Longrightarrow> reachable (exec evs s)"
proof (induction evs arbitrary: s)
  case Nil
  then show ?case by simp
next
  case (Cons ev evs)
  show ?case
  proof (cases ev)
    case (Request w ip)
    then show ?thesis using Cons by (simp add: reachable.request)
  next
    case (Step e i)
    then show ?thesis using Cons
      by (auto split: option.splits intro: reachable.progress)
  qed
qed

lemma reachable_init_state: "reachable init_state"
  by (rule reachable.start) (simp add: initial_def init_state_def)

subsection \<open>Evaluating schedules\<close>

lemmas run_defs = init_state_def add_item_def thread_step_def body_step_def Let_def status_def
   set_status_def run_steamcmd_def copytree_def rmtree_def zip_workshop_item_def upload_to_supabase_def discard_queued_def
   MAX_USER_QUEUE_def MAX_CONCURRENT_DOWNLOADS_def fcard_fempty fcard_finsert_if

lemmas trace_defs = two_clients_def run_to_end_def failed_upload_def failed_tool_def
  three_failed_uploads_def all_ok_def upload_fails_def tool_fails_def

lemmas body_defs = download_workshop_item_def download_body_def fetch_and_publish_def
  publish_and_clean_def on_ok_def

subsection \<open>Invariant: the queues are bounded\<close>

lemma queues_bounded_add_item:
  assumes "queues_bounded s"
  shows "queues_bounded (snd (add_item form_wid user_ip s))"
  unfolding queues_bounded_def
proof (intro allI impI)
  fix ip q
  assume q: "user_queues (snd (add_item form_wid user_ip s)) ip = Some q"
  have old: "\<And>q'. user_queues s ip = Some q' \<Longrightarrow> fcard q' \<le> MAX_USER_QUEUE"
    using assms by (simp add: queues_bounded_def)
  show "fcard q \<le> MAX_USER_QUEUE"
  proof (cases "ip = user_ip")
    case False
    then have "user_queues (snd (add_item form_wid user_ip s)) ip = user_queues s ip"
      by (simp add: add_item_def Let_def split: option.splits)
    with q old show ?thesis by simp
  next
    case True
    with q old show ?thesis
      by (auto simp: add_item_def Let_def fcard_finsert_if fcard_fempty MAX_USER_QUEUE_def
               split: option.splits if_splits)
  qed
qed

lemma queues_bounded_discard:
  "queues_bounded s \<Longrightarrow> queues_bounded (discard_queued ip wid s)"
  by (auto simp: queues_bounded_def discard_queued_def
           intro: order_trans [OF fcard_fminus1_le] split: option.splits if_splits)

lemma queues_bounded_thread_step:
  assumes "queues_bounded s" "thread_step e i s = Some s'"
  shows "queues_bounded s'"
proof -
  from assms(2) obtain t' s1 where
    b: "body_step e (threads s ! i) s = Some (t', s1)" and
    s': "s' = s1\<lparr>threads := (threads s)[i := t']\<rparr>"
    by (rule thread_stepD)
  have "queues_bounded s1"
    using queues_bounded_discard [OF assms(1)] assms(1) body_step_user_queues [OF b]
    by (simp add: queues_bounded_def split: if_splits)
  then show ?thesis
    by (simp add: s' queues_bounded_def)
qed

lemma reachable_queues_bounded: "reachable s \<Longrightarrow> queues_bounded s"
proof (induction rule: reachable.induct)
  case (start s)
  then show ?case by (simp add: initial_def queues_bounded_def)
next
  case (request s form_wid user_ip)
  then show ?case by (simp add: queues_bounded_add_item)
next
  case (progress s e i s')
  then show ?case by (blast intro: queues_bounded_thread_step)
qed

subsection \<open>Invariant: the statuses and the threads that wrote them\<close>



lemma status_iff_started_add_item:
  assumes "status_iff_started s"
  shows "status_iff_started (snd (add_item form_wid user_ip s))"
proof -
  let ?s' = "snd (add_item form_wid user_ip s)"
  consider (same) "threads ?s' = threads s"
    | (new) wid where "threads ?s' = threads s @ [\<lparr>t_wid = wid, t_user_ip = user_ip, t_pc = L57\<rparr>]"
    using add_item_threads [of form_wid user_ip s] by blast
  then show ?thesis
  proof cases
    case same
    with assms show ?thesis
      by (simp add: status_iff_started_def add_item_download_status)
  next
    case (new wid)
    have "(\<exists>j < length (threads ?s'). t_wid (threads ?s' ! j) = w \<and> \<not> before_first_write (threads ?s' ! j))
       \<longleftrightarrow> (\<exists>j < length (threads s). t_wid (threads s ! j) = w \<and> \<not> before_first_write (threads s ! j))"
      for w
      by (auto simp: new nth_append before_first_write_def less_Suc_eq)
    with assms show ?thesis
      by (simp add: status_iff_started_def add_item_download_status)
  qed
qed

lemma status_iff_started_step:
  assumes inv: "status_iff_started s" and st: "thread_step e i s = Some s'"
  shows "status_iff_started s'"
proof -
  from st obtain t' s1 where
    i: "i < length (threads s)" and
    b: "body_step e (threads s ! i) s = Some (t', s1)" and
    s': "s' = s1\<lparr>threads := (threads s)[i := t']\<rparr>"
    by (rule thread_stepD)
  let ?t = "threads s ! i"
  have ids: "t_wid t' = t_wid ?t" using body_step_ids [OF b] by simp
  have pc: "before_first_write t' = (t_pc ?t = L57)" by (rule body_step_pc [OF b])
  show ?thesis
    unfolding status_iff_started_def
  proof (intro allI iffI)
    fix wid
    assume new: "download_status s' wid \<noteq> None"
    show "\<exists>j < length (threads s'). t_wid (threads s' ! j) = wid \<and> \<not> before_first_write (threads s' ! j)"
    proof (cases "download_status s1 wid = download_status s wid")
      case True
      with new have "download_status s wid \<noteq> None" by (simp add: s')
      with inv obtain j where j: "j < length (threads s)" "t_wid (threads s ! j) = wid"
          "\<not> before_first_write (threads s ! j)"
        by (auto simp: status_iff_started_def)
      have "t_wid (threads s' ! j) = wid \<and> \<not> before_first_write (threads s' ! j)"
      proof (cases "j = i")
        case True
        with j have "t_pc ?t \<noteq> L57" by (auto simp: before_first_write_def)
        with j True ids pc i show ?thesis by (simp add: s')
      next
        case False
        with j show ?thesis by (simp add: s')
      qed
      with j(1) show ?thesis by (auto simp: s')
    next
      case False
      from first_write_is_line_58 [OF b False] ids i show ?thesis
        by (auto simp: s' intro!: exI [of _ i])
    qed
  next
    fix wid
    assume "\<exists>j < length (threads s'). t_wid (threads s' ! j) = wid \<and> \<not> before_first_write (threads s' ! j)"
    then obtain j where j: "j < length (threads s)" "t_wid (threads s' ! j) = wid"
        "\<not> before_first_write (threads s' ! j)"
      by (auto simp: s')
    show "download_status s' wid \<noteq> None"
    proof (cases "j = i")
      case False
      with j inv have "download_status s wid \<noteq> None"
        by (auto simp: s' status_iff_started_def)
      from download_status_grows [OF b this] show ?thesis by (simp add: s')
    next
      case True
      with j i ids pc have w: "wid = t_wid ?t" and p: "t_pc ?t \<noteq> L57" by (auto simp: s')
      show ?thesis
      proof (cases "t_pc ?t = L58")
        case True
        with body_step_download_status [OF b] w show ?thesis by (simp add: s')
      next
        case False
        with p have "\<not> before_first_write ?t" by (simp add: before_first_write_def)
        with inv i w have "download_status s wid \<noteq> None"
          by (auto simp: status_iff_started_def)
        from download_status_grows [OF b this] show ?thesis by (simp add: s')
      qed
    qed
  qed
qed

lemma reachable_status_iff_started: "reachable s \<Longrightarrow> status_iff_started s"
proof (induction rule: reachable.induct)
  case (start s)
  then show ?case by (simp add: initial_def status_iff_started_def)
next
  case (request s form_wid user_ip)
  then show ?case by (simp add: status_iff_started_add_item)
next
  case (progress s e i s')
  then show ?case by (blast intro: status_iff_started_step)
qed

subsection \<open>Invariant: the semaphore\<close>

lemma length_filter_update:
  "i < length xs \<Longrightarrow>
   length (filter P (xs[i := y])) + (if P (xs ! i) then 1 else 0)
     = length (filter P xs) + (if P y then 1 else 0)"
proof (induction xs arbitrary: i)
  case Nil
  then show ?case by simp
next
  case (Cons x xs)
  then show ?case by (cases i) auto
qed

lemma permits_accounted_add_item:
  assumes "permits_accounted s"
  shows "permits_accounted (snd (add_item form_wid user_ip s))"
  using assms add_item_threads [of form_wid user_ip s]
  by (auto simp: permits_accounted_def add_item_permits holds_permit_def)

lemma permits_accounted_step:
  assumes inv: "permits_accounted s" and st: "thread_step e i s = Some s'"
  shows "permits_accounted s'"
proof -
  from st obtain t' s1 where
    i: "i < length (threads s)" and
    b: "body_step e (threads s ! i) s = Some (t', s1)" and
    s': "s' = s1\<lparr>threads := (threads s)[i := t']\<rparr>"
    by (rule thread_stepD)
  from length_filter_update [OF i, of holds_permit t'] body_step_permits [OF b] inv
  show ?thesis
    by (simp add: permits_accounted_def s' split: if_splits)
qed

lemma reachable_permits_accounted: "reachable s \<Longrightarrow> permits_accounted s"
proof (induction rule: reachable.induct)
  case (start s)
  then show ?case by (simp add: initial_def permits_accounted_def)
next
  case (request s form_wid user_ip)
  then show ?case by (simp add: permits_accounted_add_item)
next
  case (progress s e i s')
  then show ?case by (blast intro: permits_accounted_step)
qed

text \<open>At most \<^verbatim>\<open>MAX_CONCURRENT_DOWNLOADS\<close> threads are inside the \<^verbatim>\<open>with\<close> block.\<close>

lemma permit_holders_bounded:
  "reachable s \<Longrightarrow> length (filter holds_permit (threads s)) \<le> MAX_CONCURRENT_DOWNLOADS"
  using reachable_permits_accounted [of s] by (simp add: permits_accounted_def)

lemma body_step_in_flight:
  assumes "body_step e t s = Some (t', s')" "in_flight t"
  shows "in_flight t' \<or> download_status s' (t_wid t) \<noteq> Some ''Downloading...''"
  using assms
  by (cases "t_pc t")
    (auto simp: body_step_def helper_defs Let_def in_flight_def
          split: if_splits option.splits node.splits prod.splits)

lemma body_step_writes_downloading:
  assumes "body_step e t s = Some (t', s')"
    "download_status s' wid \<noteq> download_status s wid"
    "download_status s' wid = Some ''Downloading...''"
  shows "wid = t_wid t \<and> in_flight t'"
  using assms
  by (cases "t_pc t")
    (auto simp: body_step_def helper_defs Let_def in_flight_def
          split: if_splits option.splits node.splits prod.splits)

lemma downloading_has_thread_add_item:
  assumes "downloading_has_thread s"
  shows "downloading_has_thread (snd (add_item form_wid user_ip s))"
proof -
  let ?s' = "snd (add_item form_wid user_ip s)"
  consider (same) "threads ?s' = threads s"
    | (new) wid where "threads ?s' = threads s @ [\<lparr>t_wid = wid, t_user_ip = user_ip, t_pc = L57\<rparr>]"
    using add_item_threads [of form_wid user_ip s] by blast
  then show ?thesis
  proof cases
    case same
    with assms show ?thesis
      by (simp add: downloading_has_thread_def add_item_download_status)
  next
    case (new wid)
    have "\<exists>j < length (threads ?s'). t_wid (threads ?s' ! j) = w \<and> in_flight (threads ?s' ! j)"
      if "\<exists>j < length (threads s). t_wid (threads s ! j) = w \<and> in_flight (threads s ! j)" for w
      using that by (auto simp: new nth_append less_Suc_eq)
    with assms show ?thesis
      by (simp add: downloading_has_thread_def add_item_download_status)
  qed
qed

lemma downloading_has_thread_step:
  assumes inv: "downloading_has_thread s" and st: "thread_step e i s = Some s'"
  shows "downloading_has_thread s'"
proof -
  from st obtain t' s1 where
    i: "i < length (threads s)" and
    b: "body_step e (threads s ! i) s = Some (t', s1)" and
    s': "s' = s1\<lparr>threads := (threads s)[i := t']\<rparr>"
    by (rule thread_stepD)
  let ?t = "threads s ! i"
  have ids: "t_wid t' = t_wid ?t" using body_step_ids [OF b] by simp
  show ?thesis
    unfolding downloading_has_thread_def
  proof (intro allI impI)
    fix wid
    assume d: "download_status s' wid = Some ''Downloading...''"
    then have d1: "download_status s1 wid = Some ''Downloading...''" by (simp add: s')
    show "\<exists>j < length (threads s'). t_wid (threads s' ! j) = wid \<and> in_flight (threads s' ! j)"
    proof (cases "download_status s1 wid = download_status s wid")
      case False
      from body_step_writes_downloading [OF b False d1] ids i show ?thesis
        by (auto simp: s' intro!: exI [of _ i])
    next
      case True
      with d1 inv obtain j where j: "j < length (threads s)" "t_wid (threads s ! j) = wid"
          "in_flight (threads s ! j)"
        by (auto simp: downloading_has_thread_def)
      have "t_wid (threads s' ! j) = wid \<and> in_flight (threads s' ! j)"
      proof (cases "j = i")
        case False
        with j show ?thesis by (simp add: s')
      next
        case True
        with j body_step_in_flight [OF b] d1 have "in_flight t'" by auto
        with j True ids i show ?thesis by (simp add: s')
      qed
      with j(1) show ?thesis by (auto simp: s')
    qed
  qed
qed

lemma reachable_downloading_has_thread: "reachable s \<Longrightarrow> downloading_has_thread s"
proof (induction rule: reachable.induct)
  case (start s)
  then show ?case by (simp add: initial_def downloading_has_thread_def)
next
  case (request s form_wid user_ip)
  then show ?case by (simp add: downloading_has_thread_add_item)
next
  case (progress s e i s')
  then show ?case by (blast intro: downloading_has_thread_step)
qed

text \<open>
  As long as no thread has died of an uncaught exception, at most
  \<^verbatim>\<open>MAX_CONCURRENT_DOWNLOADS\<close> ids have the status "Downloading...": each of them belongs
  to a thread that holds a permit.
\<close>

lemma downloading_bounded_while_no_thread_died:
  assumes r: "reachable s" and alive: "\<forall>j < length (threads s). \<forall>x. t_pc (threads s ! j) \<noteq> Died x"
  shows "card (downloading s) \<le> MAX_CONCURRENT_DOWNLOADS"
proof -
  let ?H = "filter holds_permit (threads s)"
  have sub: "downloading s \<subseteq> t_wid ` set ?H"
  proof
    fix wid
    assume "wid \<in> downloading s"
    with reachable_downloading_has_thread [OF r] obtain j where
      j: "j < length (threads s)" "t_wid (threads s ! j) = wid" "in_flight (threads s ! j)"
      by (auto simp: downloading_has_thread_def downloading_def)
    from j(1,3) alive have "holds_permit (threads s ! j)"
      by (cases "t_pc (threads s ! j)") (auto simp: in_flight_def holds_permit_def)
    with j nth_mem [OF j(1)] have "threads s ! j \<in> set ?H" by simp
    with j(2) show "wid \<in> t_wid ` set ?H"
      by (metis imageI)
  qed
  have "card (downloading s) \<le> card (t_wid ` set ?H)"
    by (rule card_mono [OF _ sub]) simp
  also have "\<dots> \<le> card (set ?H)"
    by (rule card_image_le) simp
  also have "\<dots> \<le> length ?H"
    by (rule card_length)
  also have "\<dots> \<le> MAX_CONCURRENT_DOWNLOADS"
    by (rule permit_holders_bounded [OF r])
  finally show ?thesis .
qed

subsection \<open>Invariant: one job per client and id\<close>

lemma body_step_leaves_block:
  assumes "body_step e t s = Some (t', s')"
  shows "(t_pc t = Leaving \<or> t_pc t = Returned \<longrightarrow> t_pc t' = Leaving \<or> t_pc t' = Returned)
    \<and> (t_pc t = L87 \<longrightarrow> t_pc t' = Leaving)"
  using assms
  by (cases "t_pc t")
    (auto simp: body_step_def helper_defs Let_def
          split: if_splits option.splits node.splits prod.splits)

lemma queued_and_single_add_item:
  assumes q: "queued_until_discarded s" and u: "one_job_per_client_and_id s"
    and st: "status_iff_started s"
  shows "queued_until_discarded (snd (add_item form_wid user_ip s))
    \<and> one_job_per_client_and_id (snd (add_item form_wid user_ip s))"
proof (cases "fst (add_item form_wid user_ip s) = Accepted")
  case False
  then have th: "threads (snd (add_item form_wid user_ip s)) = threads s"
    using add_item_threads [of form_wid user_ip s] by auto
  have uq: "user_queues (snd (add_item form_wid user_ip s)) ip = user_queues s ip
      \<or> (user_queues s ip = None \<and> user_queues (snd (add_item form_wid user_ip s)) ip = Some {||})"
    for ip
    using False by (auto simp: add_item_def Let_def split: option.splits if_splits)
  have "queued_until_discarded (snd (add_item form_wid user_ip s))"
    unfolding queued_until_discarded_def th
  proof (intro allI impI)
    fix j
    assume j: "j < length (threads s)"
      "t_pc (threads s ! j) \<noteq> Leaving \<and> t_pc (threads s ! j) \<noteq> Returned"
    with q obtain qu where "user_queues s (t_user_ip (threads s ! j)) = Some qu"
        "t_wid (threads s ! j) |\<in>| qu"
      by (auto simp: queued_until_discarded_def)
    with uq [of "t_user_ip (threads s ! j)"]
    show "\<exists>q. user_queues (snd (add_item form_wid user_ip s)) (t_user_ip (threads s ! j)) = Some q
        \<and> t_wid (threads s ! j) |\<in>| q"
      by auto
  qed
  moreover from u th have "one_job_per_client_and_id (snd (add_item form_wid user_ip s))"
    by (simp add: one_job_per_client_and_id_def)
  ultimately show ?thesis by simp
next
  case True
  then obtain wid where fw: "form_wid = Some wid" and ne: "wid \<noteq> []"
    by (auto simp: add_item_def Let_def split: option.splits if_splits)
  let ?queue = "case user_queues s user_ip of None \<Rightarrow> {||} | Some q \<Rightarrow> q"
  from True fw have fresh: "wid |\<notin>| ?queue" "download_status s wid = None"
    by (auto simp: add_item_def Let_def dom_def split: if_splits)
  from True fw ne have s': "snd (add_item form_wid user_ip s)
      = s\<lparr>user_queues := (user_queues s)(user_ip \<mapsto> finsert wid ?queue),
           threads := threads s @ [\<lparr>t_wid = wid, t_user_ip = user_ip, t_pc = L57\<rparr>]\<rparr>"
    by (auto simp: add_item_def Let_def split: if_splits)
  have none: "\<not> (t_user_ip (threads s ! j) = user_ip \<and> t_wid (threads s ! j) = wid)"
    if j: "j < length (threads s)" for j
  proof
    assume a: "t_user_ip (threads s ! j) = user_ip \<and> t_wid (threads s ! j) = wid"
    show False
    proof (cases "t_pc (threads s ! j) = Leaving \<or> t_pc (threads s ! j) = Returned")
      case True
      then have "\<not> before_first_write (threads s ! j)"
        by (auto simp: before_first_write_def)
      with st j a have "download_status s wid \<noteq> None"
        by (auto simp: status_iff_started_def)
      with fresh show False by simp
    next
      case False
      with q j a obtain qu where "user_queues s user_ip = Some qu" "wid |\<in>| qu"
        by (auto simp: queued_until_discarded_def)
      with fresh show False by simp
    qed
  qed
  have "queued_until_discarded (snd (add_item form_wid user_ip s))"
    unfolding queued_until_discarded_def
  proof (intro allI impI)
    fix j
    let ?ts = "threads (snd (add_item form_wid user_ip s))"
    assume j: "j < length ?ts" "t_pc (?ts ! j) \<noteq> Leaving \<and> t_pc (?ts ! j) \<noteq> Returned"
    show "\<exists>q. user_queues (snd (add_item form_wid user_ip s)) (t_user_ip (?ts ! j)) = Some q
        \<and> t_wid (?ts ! j) |\<in>| q"
    proof (cases "j < length (threads s)")
      case True
      with j q obtain qu where "user_queues s (t_user_ip (threads s ! j)) = Some qu"
          "t_wid (threads s ! j) |\<in>| qu"
        by (auto simp: s' nth_append queued_until_discarded_def)
      with True show ?thesis
        by (auto simp: s' nth_append)
    next
      case False
      with j(1) have "j = length (threads s)" by (simp add: s')
      then show ?thesis by (simp add: s')
    qed
  qed
  moreover have "one_job_per_client_and_id (snd (add_item form_wid user_ip s))"
    using u none
    by (auto simp: one_job_per_client_and_id_def s' nth_append less_Suc_eq)
  ultimately show ?thesis by simp
qed

lemma queued_and_single_step:
  assumes q: "queued_until_discarded s" and u: "one_job_per_client_and_id s"
    and st: "thread_step e i s = Some s'"
  shows "queued_until_discarded s' \<and> one_job_per_client_and_id s'"
proof -
  from st obtain t' s1 where
    i: "i < length (threads s)" and
    b: "body_step e (threads s ! i) s = Some (t', s1)" and
    s': "s' = s1\<lparr>threads := (threads s)[i := t']\<rparr>"
    by (rule thread_stepD)
  let ?t = "threads s ! i"
  have ids: "t_wid t' = t_wid ?t" "t_user_ip t' = t_user_ip ?t"
    using body_step_ids [OF b] by simp_all
  have same: "t_user_ip (threads s' ! j) = t_user_ip (threads s ! j)
      \<and> t_wid (threads s' ! j) = t_wid (threads s ! j)" if "j < length (threads s)" for j
    using that ids i by (cases "j = i") (simp_all add: s')
  have U: "one_job_per_client_and_id s'"
    using u same by (auto simp: one_job_per_client_and_id_def s')
  have Q: "queued_until_discarded s'"
    unfolding queued_until_discarded_def
  proof (intro allI impI)
    fix j
    assume j: "j < length (threads s')"
      "t_pc (threads s' ! j) \<noteq> Leaving \<and> t_pc (threads s' ! j) \<noteq> Returned"
    then have jl: "j < length (threads s)" by (simp add: s')
    have old: "t_pc (threads s ! j) \<noteq> Leaving \<and> t_pc (threads s ! j) \<noteq> Returned"
    proof (cases "j = i")
      case True
      with j i body_step_leaves_block [OF b] show ?thesis by (auto simp: s')
    next
      case False
      with j show ?thesis by (simp add: s')
    qed
    with q jl obtain qu where qu: "user_queues s (t_user_ip (threads s ! j)) = Some qu"
        "t_wid (threads s ! j) |\<in>| qu"
      by (auto simp: queued_until_discarded_def)
    show "\<exists>q. user_queues s' (t_user_ip (threads s' ! j)) = Some q \<and> t_wid (threads s' ! j) |\<in>| q"
    proof (cases "t_pc ?t = L87")
      case False
      with body_step_user_queues [OF b] qu same [OF jl] show ?thesis
        by (simp add: s')
    next
      case True
      with body_step_leaves_block [OF b] j i have ji: "j \<noteq> i" by (auto simp: s')
      with u jl i have diff: "t_user_ip (threads s ! j) \<noteq> t_user_ip ?t
          \<or> t_wid (threads s ! j) \<noteq> t_wid ?t"
        by (auto simp: one_job_per_client_and_id_def)
      from True body_step_user_queues [OF b]
      have "user_queues s1 = user_queues (discard_queued (t_user_ip ?t) (t_wid ?t) s)"
        by simp
      with qu diff ji show ?thesis
        by (auto simp: s' discard_queued_def split: option.splits)
    qed
  qed
  from Q U show ?thesis by simp
qed

text \<open>
  The check of line 136 does keep one client from having two jobs for one id: no two
  threads were ever started for the same client and the same id.
\<close>

lemma one_job_per_client:
  "reachable s \<Longrightarrow> queued_until_discarded s \<and> one_job_per_client_and_id s"
proof (induction rule: reachable.induct)
  case (start s)
  then show ?case
    by (simp add: initial_def queued_until_discarded_def one_job_per_client_and_id_def)
next
  case (request s form_wid user_ip)
  then show ?case
    using queued_and_single_add_item reachable_status_iff_started by blast
next
  case (progress s e i s')
  then show ?case
    using queued_and_single_step by blast
qed

text \<open>
  With one thread for an id, its status only moves forward: from none to
  "Downloading..." and from there to one of the five final statuses.
\<close>

lemma status_moves_forward_for_single_job:
  assumes r: "reachable s" and st: "thread_step e i s = Some s'"
    and single: "\<forall>j < length (threads s). j \<noteq> i \<longrightarrow> t_wid (threads s ! j) \<noteq> wid"
  shows "lifecycle_rank (download_status s wid) \<le> lifecycle_rank (download_status s' wid)"
proof -
  from st obtain t' s1 where
    i: "i < length (threads s)" and
    b: "body_step e (threads s ! i) s = Some (t', s1)" and
    s': "s' = s1\<lparr>threads := (threads s)[i := t']\<rparr>"
    by (rule thread_stepD)
  show ?thesis
  proof (cases "download_status s1 wid = download_status s wid")
    case True
    then show ?thesis by (simp add: s')
  next
    case False
    from first_write_is_line_58 [OF b False] have w: "wid = t_wid (threads s ! i)" by simp
    show ?thesis
    proof (cases "t_pc (threads s ! i) = L58")
      case True
      have "download_status s wid = None"
      proof (rule ccontr)
        assume "download_status s wid \<noteq> None"
        with reachable_status_iff_started [OF r] obtain j where
          j: "j < length (threads s)" "t_wid (threads s ! j) = wid"
          "\<not> before_first_write (threads s ! j)"
          by (auto simp: status_iff_started_def)
        with single have "j = i" by auto
        with j True show False by (simp add: before_first_write_def)
      qed
      then show ?thesis by (simp add: lifecycle_rank_def)
    next
      case False
      with body_step_download_status [OF b] w \<open>download_status s1 wid \<noteq> download_status s wid\<close>
      have "lifecycle_rank (download_status s1 wid) = 2"
        by (cases "t_pc (threads s ! i)") (auto simp: lifecycle_rank_def)
      then show ?thesis
        by (auto simp: s' lifecycle_rank_def split: option.splits if_splits)
    qed
  qed
qed

subsection \<open>The body as one function\<close>

text \<open>The permit is released on every way out of the body.\<close>

lemma permit_always_released:
  assumes "download_workshop_item e wid ip s = Some (r, s')"
  shows "permits s' = permits s"
  using assms
  by (auto simp: body_defs helper_defs zip_workshop_item_def status_def Let_def
           split: if_splits option.splits node.splits prod.splits)



text \<open>When the body ends with "Download complete" or "Failed to zip files", line 81 has
  removed the local folder.\<close>

lemma local_copy_removed_on_return:
  assumes "download_workshop_item e wid ip s = Some (r, s')"
    "status wid s' = ''Download complete'' \<or> status wid s' = ''Failed to zip files''"
  shows "fs s' (WorkshopPath wid) = None"
  using assms
  by (auto simp: body_defs helper_defs zip_workshop_item_def status_def Let_def
           split: if_splits option.splits node.splits prod.splits)

lemma download_body_threads:
  "download_body e wid ip s = (r, s') \<Longrightarrow> threads s' = threads s"
  by (auto simp: download_body_def fetch_and_publish_def publish_and_clean_def
        on_ok_def helper_defs zip_workshop_item_def Let_def
      split: if_splits option.splits node.splits prod.splits)

subsection \<open>The two models of the body agree\<close>

lemma step_put:
  assumes "i < length (threads s)"
  shows "thread_step e i (put i wid ip p s)
     = (case body_step e \<lparr>t_wid = wid, t_user_ip = ip, t_pc = p\<rparr> s of
          None \<Rightarrow> None
        | Some (t', s') \<Rightarrow> Some (put i wid ip (t_pc t') s'))"
proof (cases "body_step e \<lparr>t_wid = wid, t_user_ip = ip, t_pc = p\<rparr> s")
  case None
  with assms show ?thesis
    by (simp add: thread_step_def put_def body_step_frame)
next
  case (Some a)
  obtain t' s' where a: "a = (t', s')" by (cases a)
  from body_step_ids [OF Some [unfolded a]] body_step_threads [OF Some [unfolded a]]
  have "t' = \<lparr>t_wid = wid, t_user_ip = ip, t_pc = t_pc t'\<rparr>" "threads s' = threads s"
    by simp_all
  with assms Some a show ?thesis
    by (simp add: thread_step_def put_def body_step_frame)
qed

lemma threads_helpers [simp]:
  "threads (set_status wid st s) = threads s"
  "threads (run_steamcmd e wid s) = threads s"
  "threads (discard_queued ip wid s) = threads s"
  "threads (snd (copytree src dst s)) = threads s"
  "threads (snd (rmtree dst s)) = threads s"
  "threads (snd (upload_to_supabase e p wid s)) = threads s"
  by (auto simp: helper_defs Let_def split: option.splits node.splits)

lemma permits_discard [simp]: "permits (discard_queued ip wid s) = permits s"
  by (simp add: discard_queued_def split: option.splits)

lemma exec_step:
  "thread_step e i s = Some s' \<Longrightarrow>
   exec (replicate (Suc n) (Step e i)) s = exec (replicate n (Step e i)) s'"
  by simp

lemma exec_ended:
  "i < length (threads s) \<Longrightarrow>
   exec (replicate n (Step e i)) (put i wid ip (ended r) s) = put i wid ip (ended r) s"
  by (induction n) (auto simp: step_put body_step_def ended_def split: option.splits)

lemma from_L87:
  "i < length (threads s) \<Longrightarrow>
   exec (replicate (Suc (Suc n)) (Step e i)) (put i wid ip L87 s) = finish i wid ip (None, s)"
  using exec_ended [of i _ n e wid ip None]
  by (simp add: step_put body_step_def finish_def on_ok_def ended_def)

lemma from_Raising:
  "i < length (threads s) \<Longrightarrow>
   exec (replicate (Suc n) (Step e i)) (put i wid ip (Raising x) s) = finish i wid ip (Some x, s)"
  using exec_ended [of i _ n e wid ip "Some x"]
  by (simp add: step_put body_step_def finish_def on_ok_def ended_def)

lemma from_outcome:
  assumes "i < length (threads s)"
  shows "exec (replicate (Suc (Suc n)) (Step e i))
           (put i wid ip (case r of None \<Rightarrow> L87 | Some x \<Rightarrow> Raising x) s)
         = finish i wid ip (r, s)"
proof (cases r)
  case None
  with assms show ?thesis by (simp only: from_L87 option.case)
next
  case (Some x)
  with assms from_Raising [of i s "Suc n" e wid ip x] show ?thesis by simp
qed

lemma from_status_write:
  assumes "i < length (threads s)" "p = L62 \<or> p = L83 \<or> p = L85"
  shows "exec (replicate (Suc (Suc (Suc n))) (Step e i)) (put i wid ip p s)
     = finish i wid ip
         (None, set_status wid
            (if p = L62 then ''Already downloaded locally''
             else if p = L83 then ''Failed to find downloaded files''
             else ''SteamCMD failed'') s)"
  using assms from_L87 [of i "set_status wid st s" n e wid ip for st]
  by (auto simp: step_put body_step_def)

lemma from_L81:
  assumes "i < length (threads s)"
  shows "exec (replicate (Suc (Suc (Suc n))) (Step e i)) (put i wid ip L81 s)
     = finish i wid ip (rmtree (WorkshopPath wid) s)"
proof -
  obtain r s' where rm: "rmtree (WorkshopPath wid) s = (r, s')"
    by (cases "rmtree (WorkshopPath wid) s")
  with threads_helpers(5) [of "WorkshopPath wid" s] assms have l: "i < length (threads s')"
    by simp
  have "thread_step e i (put i wid ip L81 s)
      = Some (put i wid ip (case r of None \<Rightarrow> L87 | Some x \<Rightarrow> Raising x) s')"
    using assms rm by (cases r) (simp_all add: step_put body_step_def)
  with from_outcome [OF l, of n e wid ip r] rm show ?thesis
    by simp
qed

lemma from_L78:
  assumes "i < length (threads s)"
  shows "exec (replicate (Suc (Suc (Suc (Suc n)))) (Step e i)) (put i wid ip L78 s)
     = finish i wid ip (rmtree (WorkshopPath wid) (set_status wid ''Download complete'' s))"
  using assms from_L81 [of i "set_status wid ''Download complete'' s" n e wid ip]
  by (simp add: step_put body_step_def)

lemma from_L80:
  assumes "i < length (threads s)"
  shows "exec (replicate (Suc (Suc (Suc (Suc n)))) (Step e i)) (put i wid ip L80 s)
     = finish i wid ip (rmtree (WorkshopPath wid) (set_status wid ''Failed to zip files'' s))"
  using assms from_L81 [of i "set_status wid ''Failed to zip files'' s" n e wid ip]
  by (simp add: step_put body_step_def)

lemma from_L77:
  assumes "i < length (threads s)"
  shows "exec (replicate (Suc (Suc (Suc (Suc (Suc n))))) (Step e i)) (put i wid ip (L77 p) s)
     = finish i wid ip
         (on_ok (on_ok (upload_to_supabase e p wid s)
                   (\<lambda>s'. (None, set_status wid ''Download complete'' s')))
            (rmtree (WorkshopPath wid)))"
proof -
  obtain r s' where up: "upload_to_supabase e p wid s = (r, s')"
    by (cases "upload_to_supabase e p wid s")
  with threads_helpers(6) [of e p wid s] assms have l: "i < length (threads s')"
    by simp
  show ?thesis
  proof (cases r)
    case None
    with assms up from_L78 [OF l, of n e wid ip] show ?thesis
      by (simp add: step_put body_step_def on_ok_def)
  next
    case (Some x)
    with assms up from_Raising [OF l, of "Suc (Suc (Suc n))" e wid ip x] show ?thesis
      by (simp add: step_put body_step_def on_ok_def finish_def)
  qed
qed

lemma from_L75:
  assumes "i < length (threads s)"
  shows "exec (replicate (Suc (Suc (Suc (Suc (Suc (Suc n)))))) (Step e i)) (put i wid ip L75 s)
     = finish i wid ip (publish_and_clean e wid s)"
proof -
  obtain zp f' where z: "zip_workshop_item wid (fs s) = (zp, f')"
    by (cases "zip_workshop_item wid (fs s)")
  from assms have l: "i < length (threads (s\<lparr>fs := f'\<rparr>))" by simp
  show ?thesis
  proof (cases zp)
    case None
    with assms z from_L80 [OF l, of "Suc n" e wid ip] show ?thesis
      by (simp add: step_put body_step_def publish_and_clean_def on_ok_def)
  next
    case (Some p)
    with assms z from_L77 [OF l, of n e wid ip p] show ?thesis
      by (simp add: step_put body_step_def publish_and_clean_def)
  qed
qed

lemma from_L74:
  assumes "i < length (threads s)"
  shows "exec (replicate (Suc (Suc (Suc (Suc (Suc (Suc (Suc n))))))) (Step e i))
           (put i wid ip L74 s)
     = finish i wid ip
         (on_ok (copytree (ContentPath wid) (WorkshopPath wid) s) (publish_and_clean e wid))"
proof -
  obtain r s' where c: "copytree (ContentPath wid) (WorkshopPath wid) s = (r, s')"
    by (cases "copytree (ContentPath wid) (WorkshopPath wid) s")
  with threads_helpers(4) [of "ContentPath wid" "WorkshopPath wid" s] assms
  have l: "i < length (threads s')"
    by simp
  show ?thesis
  proof (cases r)
    case None
    with assms c from_L75 [OF l, of n e wid ip] show ?thesis
      by (simp add: step_put body_step_def on_ok_def)
  next
    case (Some x)
    with assms c from_Raising [OF l, of "Suc (Suc (Suc (Suc (Suc n))))" e wid ip x] show ?thesis
      by (simp add: step_put body_step_def on_ok_def finish_def)
  qed
qed

lemma from_L65:
  assumes "i < length (threads s)"
  shows "exec (replicate (Suc (Suc (Suc (Suc (Suc (Suc (Suc (Suc (Suc n))))))))) (Step e i))
           (put i wid ip L65 s)
     = finish i wid ip (fetch_and_publish e wid s)"
proof -
  let ?s1 = "run_steamcmd e wid s"
  from assms have l: "i < length (threads ?s1)" by simp
  have 1: "thread_step e i (put i wid ip L65 s)
      = Some (put i wid ip (if tool_exit_ok e then L73 else L85) ?s1)"
    using assms by (simp add: step_put body_step_def)
  have 2: "thread_step e i (put i wid ip L73 ?s1)
      = Some (put i wid ip (if fs ?s1 (ContentPath wid) = None then L83 else L74) ?s1)"
    using l by (simp add: step_put body_step_def)
  show ?thesis
  proof (cases "tool_exit_ok e")
    case False
    with exec_step [OF 1] from_status_write [OF l, of L85 "Suc (Suc (Suc (Suc (Suc n))))" e wid ip]
    show ?thesis
      by (simp only: fetch_and_publish_def Let_def if_False pc.simps simp_thms)
  next
    case ok: True
    show ?thesis
    proof (cases "fs ?s1 (ContentPath wid) = None")
      case True
      with ok exec_step [OF 1] exec_step [OF 2]
        from_status_write [OF l, of L83 "Suc (Suc (Suc (Suc n)))" e wid ip]
      show ?thesis
        by (simp only: fetch_and_publish_def Let_def if_True if_False pc.simps simp_thms)
    next
      case False
      with ok exec_step [OF 1] exec_step [OF 2] from_L74 [OF l, of n e wid ip]
      show ?thesis
        by (simp only: fetch_and_publish_def Let_def if_True if_False simp_thms)
    qed
  qed
qed

lemma from_L58:
  assumes "i < length (threads s)"
  shows "exec (replicate (Suc (Suc (Suc (Suc (Suc (Suc (Suc (Suc (Suc (Suc (Suc n)))))))))))
                 (Step e i))
           (put i wid ip L58 s)
     = (case download_body e wid ip s of
          (r, s') \<Rightarrow> put i wid ip (ended r) (s'\<lparr>permits := permits s' + 1\<rparr>))"
proof -
  let ?s1 = "set_status wid ''Downloading...'' s"
  from assms have l: "i < length (threads ?s1)" by simp
  have f: "fs ?s1 = fs s" by (simp add: set_status_def)
  have 1: "thread_step e i (put i wid ip L58 s) = Some (put i wid ip L61 ?s1)"
    using assms by (simp add: step_put body_step_def)
  have 2: "thread_step e i (put i wid ip L61 ?s1)
      = Some (put i wid ip (if fs s (WorkshopPath wid) = None then L65 else L62) ?s1)"
    using l f by (simp add: step_put body_step_def)
  have "exec (replicate (Suc (Suc (Suc (Suc (Suc (Suc (Suc (Suc (Suc (Suc (Suc n)))))))))))
                 (Step e i))
           (put i wid ip L58 s)
     = finish i wid ip
         (if fs s (WorkshopPath wid) = None
          then fetch_and_publish e wid ?s1
          else (None, set_status wid ''Already downloaded locally'' ?s1))"
  proof (cases "fs s (WorkshopPath wid) = None")
    case True
    have "exec (replicate (Suc (Suc (Suc (Suc (Suc (Suc (Suc (Suc (Suc (Suc (Suc n)))))))))))
                 (Step e i)) (put i wid ip L58 s)
        = exec (replicate (Suc (Suc (Suc (Suc (Suc (Suc (Suc (Suc (Suc n)))))))))
                 (Step e i)) (put i wid ip L65 ?s1)"
      using True by (simp only: exec_step [OF 1] exec_step [OF 2] if_True simp_thms)
    with True from_L65 [OF l, of n e wid ip] show ?thesis
      by (simp only: if_True simp_thms)
  next
    case False
    have "exec (replicate (Suc (Suc (Suc (Suc (Suc (Suc (Suc (Suc (Suc (Suc (Suc n)))))))))))
                 (Step e i)) (put i wid ip L58 s)
        = exec (replicate (Suc (Suc (Suc (Suc (Suc (Suc (Suc (Suc (Suc n)))))))))
                 (Step e i)) (put i wid ip L62 ?s1)"
      using False by (simp only: exec_step [OF 1] exec_step [OF 2] if_False simp_thms)
    with False from_status_write [OF l, of L62 "Suc (Suc (Suc (Suc (Suc (Suc n)))))" e wid ip]
    show ?thesis
      by (simp only: if_True if_False simp_thms)
  qed
  also have "\<dots> = (case download_body e wid ip s of
          (r, s') \<Rightarrow> put i wid ip (ended r) (s'\<lparr>permits := permits s' + 1\<rparr>))"
    by (simp only: finish_def download_body_def Let_def f)
  finally show ?thesis .
qed

lemma run_to_end_replicate:
  "run_to_end e i = replicate (Suc (Suc (Suc (Suc (Suc (Suc (Suc (Suc (Suc (Suc (Suc (Suc 0))))))))))))
      (Step e i)"
  by (simp add: run_to_end_def)

lemma put_same:
  assumes "i < length (threads s)" "threads s ! i = \<lparr>t_wid = wid, t_user_ip = ip, t_pc = p\<rparr>"
  shows "put i wid ip p s = s"
proof -
  have "(threads s)[i := \<lparr>t_wid = wid, t_user_ip = ip, t_pc = p\<rparr>] = threads s"
    using list_update_id [of "threads s" i] assms(2) by simp
  then show ?thesis by (simp add: put_def)
qed

text \<open>
  The two models of \<^verbatim>\<open>download_workshop_item\<close> agree: when no other thread moves,
  the steps of a thread that starts at line 57 with a permit free end in the state the
  function computes, with the thread returned or dead.
\<close>

lemma solo_run:
  assumes i: "i < length (threads s)"
    and t: "threads s ! i = \<lparr>t_wid = wid, t_user_ip = ip, t_pc = L57\<rparr>"
    and d: "download_workshop_item e wid ip s = Some (r, s')"
  shows "exec (run_to_end e i) s
       = s'\<lparr>threads := (threads s)[i := \<lparr>t_wid = wid, t_user_ip = ip, t_pc = ended r\<rparr>]\<rparr>"
proof -
  from d have p: "permits s \<noteq> 0"
    by (auto simp: download_workshop_item_def split: if_splits)
  let ?s0 = "s\<lparr>permits := permits s - 1\<rparr>"
  from d p obtain s1 where b: "download_body e wid ip ?s0 = (r, s1)"
    and s': "s' = s1\<lparr>permits := permits s1 + 1\<rparr>"
    by (auto simp: download_workshop_item_def split: prod.splits)
  from i have l: "i < length (threads ?s0)" by simp
  have th: "threads s1 = threads s"
    using download_body_threads [OF b] by simp
  have 1: "thread_step e i (put i wid ip L57 s) = Some (put i wid ip L58 ?s0)"
    using i p by (simp add: step_put body_step_def)
  have "exec (run_to_end e i) s = exec (run_to_end e i) (put i wid ip L57 s)"
    using put_same [OF i t] by simp
  also have "\<dots> = put i wid ip (ended r) (s1\<lparr>permits := permits s1 + 1\<rparr>)"
    using from_L58 [OF l, of 0 e wid ip] b
    by (simp only: run_to_end_replicate exec_step [OF 1] prod.case)
  finally show ?thesis
    by (simp add: s' put_def th)
qed

subsection \<open>The packager\<close>



subsection \<open>The per-client queue cap\<close>

text \<open>
  C5. In every reachable state every client's queue holds at most \<^verbatim>\<open>MAX_USER_QUEUE\<close>
  ids; and a request for a new id (in no queue of the client, without a status) by a
  client whose queue is at the cap is answered with HTTP 429 and leaves the state,
  the queue included, as it was.
\<close>

theorem client_queue_cap:
  assumes "reachable s"
  shows "(\<forall>ip q. user_queues s ip = Some q \<longrightarrow> fcard q \<le> MAX_USER_QUEUE)
     \<and> (\<forall>wid ip q. wid \<noteq> [] \<and> user_queues s ip = Some q \<and> wid |\<notin>| q
            \<and> wid \<notin> dom (download_status s) \<and> MAX_USER_QUEUE \<le> fcard q
          \<longrightarrow> add_item (Some wid) ip s = (ClientQueueFull, s))"
  using reachable_queues_bounded [OF assms] add_item_full
  by (simp add: queues_bounded_def)

theorem client_queue_cap_witness:
  "user_queues (exec scenario_A init_state) ''X'' = Some {|''3'', ''2'', ''1''|}
   \<and> fcard {|''3'', ''2'', ''1''|} \<le> MAX_USER_QUEUE
   \<and> add_item (Some ''4'') ''X'' (exec scenario_A init_state)
       = (ClientQueueFull, exec scenario_A init_state)"
proof -
  have r: "reachable (exec scenario_A init_state)"
    by (rule reachable_exec [OF reachable_init_state])
  have q: "user_queues (exec scenario_A init_state) ''X'' = Some {|''3'', ''2'', ''1''|}"
    by (simp add: scenario_A_def run_defs) 
  have d: "''4'' \<notin> dom (download_status (exec scenario_A init_state))"
    by (simp add: scenario_A_def run_defs dom_def)
  have c: "MAX_USER_QUEUE \<le> fcard {|''3'', ''2'', ''1''|}"
    by (simp add: MAX_USER_QUEUE_def fcard_finsert_if fcard_fempty)
  from client_queue_cap [OF r] q d c show ?thesis
    by auto
qed

subsection \<open>Requests for an item that is complete\<close>

text \<open>
  C7. A request for an id whose status is "Download complete" is answered with
  "already queued or downloaded" before anything is scheduled: no thread is started (so
  neither SteamCMD, nor the packager, nor the upload runs for it), and the statuses, the
  semaphore, the disk and the bucket are as before.
\<close>

theorem complete_not_readmitted:
  assumes "wid \<noteq> []" "download_status s wid = Some ''Download complete''"
  shows "fst (add_item (Some wid) ip s) = AlreadyQueuedOrDone
     \<and> threads (snd (add_item (Some wid) ip s)) = threads s
     \<and> download_status (snd (add_item (Some wid) ip s)) = download_status s
     \<and> permits (snd (add_item (Some wid) ip s)) = permits s
     \<and> fs (snd (add_item (Some wid) ip s)) = fs s
     \<and> bucket (snd (add_item (Some wid) ip s)) = bucket s"
  using assms add_item_rejected [of wid s ip] by simp

theorem complete_not_readmitted_witness:
  "download_status (exec one_job_done init_state) ''42'' = Some ''Download complete''
   \<and> fst (add_item (Some ''42'') ''B'' (exec one_job_done init_state)) = AlreadyQueuedOrDone
   \<and> threads (snd (add_item (Some ''42'') ''B'' (exec one_job_done init_state)))
       = threads (exec one_job_done init_state)
   \<and> map t_pc (threads (exec one_job_done init_state)) = [Returned]"
proof -
  have d: "download_status (exec one_job_done init_state) ''42'' = Some ''Download complete''"
    by (simp add: one_job_done_def trace_defs run_defs)
  have p: "map t_pc (threads (exec one_job_done init_state)) = [Returned]"
    by (simp add: one_job_done_def trace_defs run_defs)
  from complete_not_readmitted [OF _ d, of "''B''"] d p show ?thesis
    by simp
qed

subsection \<open>No status before line 58\<close>



subsection \<open>One item, two clients\<close>

text \<open>
  C1 says that of several requests for one id exactly one is accepted. The code accepts
  both of the following: client A asks for item 42, and before A's thread has written
  a status, client B asks for item 42. Line 136 looks for the id in the queue of the
  asking client and in \<^verbatim>\<open>download_status\<close>; the id is in A's queue only, and it gets
  a status only at line 58. Both threads are started, and both can hold a permit and
  stand inside the body for item 42 at the same time.
\<close>

theorem same_item_admitted_twice:
  "fst (add_item (Some ''42'') ''A'' init_state) = Accepted
   \<and> fst (add_item (Some ''42'') ''B'' (snd (add_item (Some ''42'') ''A'' init_state))) = Accepted
   \<and> threads (exec two_clients init_state)
       = [\<lparr>t_wid = ''42'', t_user_ip = ''A'', t_pc = L57\<rparr>,
          \<lparr>t_wid = ''42'', t_user_ip = ''B'', t_pc = L57\<rparr>]
   \<and> threads (exec (two_clients @ [Step all_ok 0, Step all_ok 1, Step all_ok 0, Step all_ok 1])
         init_state)
       = [\<lparr>t_wid = ''42'', t_user_ip = ''A'', t_pc = L61\<rparr>,
          \<lparr>t_wid = ''42'', t_user_ip = ''B'', t_pc = L61\<rparr>]"
  by (simp add: trace_defs run_defs)

text \<open>
  C8 says that the status of an id never goes back. With the two accepted requests
  above, A's thread runs to its end and leaves "Download complete"; then B's thread
  takes a permit and line 58 sets the status of the same id back to "Downloading...".
\<close>

theorem status_regresses:
  "status ''42'' (exec (two_clients @ run_to_end all_ok 0) init_state) = ''Download complete''
   \<and> status ''42'' (exec (two_clients @ run_to_end all_ok 0 @ [Step all_ok 1, Step all_ok 1])
        init_state) = ''Downloading...''"
  by (simp add: trace_defs run_defs)

subsection \<open>An upload that raises\<close>

text \<open>
  C3 says that on every way out of the body, a failed publish included, the permit is
  released and the id leaves the client's queue. When \<^verbatim>\<open>upload_to_supabase\<close> raises,
  nothing in \<^verbatim>\<open>download_workshop_item\<close> catches the exception: the \<^verbatim>\<open>with\<close> statement
  releases the permit, but lines 78 to 89 are skipped. The thread is dead, the id is
  still in the queue of client A, and the status is still "Downloading...".
\<close>

theorem upload_failure_keeps_queue_slot:
  "threads (exec failed_upload init_state)
     = [\<lparr>t_wid = ''x'', t_user_ip = ''A'', t_pc = Died StorageException\<rparr>]
   \<and> permits (exec failed_upload init_state) = MAX_CONCURRENT_DOWNLOADS
   \<and> user_queues (exec failed_upload init_state) ''A'' = Some {|''x''|}
   \<and> status ''x'' (exec failed_upload init_state) = ''Downloading...''"
  by (simp add: trace_defs run_defs)

text \<open>
  C4 says that once packaging was attempted the local folder is gone when the body
  ends. In the same run the folder was copied and zipped, the upload raised, and line 81
  was never reached: the folder and the archive are both still on disk.
\<close>

theorem upload_failure_keeps_local_copy:
  "threads (exec failed_upload init_state)
     = [\<lparr>t_wid = ''x'', t_user_ip = ''A'', t_pc = Died StorageException\<rparr>]
   \<and> fs (exec failed_upload init_state) (WorkshopPath ''x'') = Some (Dir [(''a.txt'', ''hi'')])
   \<and> fs (exec failed_upload init_state) (WorkshopPath ''x.zip'') = Some (File [(''a.txt'', ''hi'')])"
  by (simp add: trace_defs run_defs)

text \<open>
  C6 says that at most \<^verbatim>\<open>MAX_CONCURRENT_DOWNLOADS\<close> ids have the status
  "Downloading...". Three jobs whose uploads raise, one after the other, leave three
  ids with that status, though no thread runs and both permits are free.
\<close>

theorem stale_downloading_statuses:
  "reachable (exec three_failed_uploads init_state)
   \<and> downloading (exec three_failed_uploads init_state) = {''1'', ''2'', ''3''}
   \<and> card (downloading (exec three_failed_uploads init_state)) = 3
   \<and> MAX_CONCURRENT_DOWNLOADS = 2
   \<and> map t_pc (threads (exec three_failed_uploads init_state))
       = [Died StorageException, Died StorageException, Died StorageException]
   \<and> permits (exec three_failed_uploads init_state) = 2"
proof -
  have d: "downloading (exec three_failed_uploads init_state) = {''1'', ''2'', ''3''}"
    by (auto simp add: downloading_def trace_defs run_defs split: if_splits)
  have c: "card {''1'', ''2'', ''3''} = 3"
    by simp
  have t: "map t_pc (threads (exec three_failed_uploads init_state))
       = [Died StorageException, Died StorageException, Died StorageException]
     \<and> permits (exec three_failed_uploads init_state) = 2"
    by (simp add: trace_defs run_defs)
  from d c t reachable_exec [OF reachable_init_state, of three_failed_uploads]
  show ?thesis by (simp add: MAX_CONCURRENT_DOWNLOADS_def)
qed

subsection \<open>After a failed SteamCMD run\<close>




end
